theory Spec2Isabelle
  imports Main
begin

section \<open>Data slots of D-Bus: \<^verbatim>\<open>dbus/dbus-dataslot.c\<close>\<close>

text \<open>
  The file implements an allocator of small integer identifiers
  (\<^verbatim>\<open>DBusDataSlotAllocator\<close>) and a per-object array of (data, free function) pairs
  indexed by such an identifier (\<^verbatim>\<open>DBusDataSlotList\<close>).

  Conventions of the embedding.
  \<^item> A C \<^verbatim>\<open>int\<close> is an \<^typ>\<open>int\<close>. The counters of both structures count cells of a
    table held in memory and a slot identifier is below such a counter, so the only
    sum that can leave the range of \<^verbatim>\<open>int\<close> is \<open>n_allocated_slots + 1\<close> for a table of
    \<open>2^31 - 1\<close> cells. Signed overflow is undefined in C: there is no wrap-around to
    write out, and the model does not go into it.
  \<^item> A pointer to an array is \<open>Null\<close> or a \<open>Block\<close> with the cells it points to. Reading or
    writing through \<open>Null\<close> or outside the block has no defined result in C; the model
    stops with \<open>Invalid_Access\<close>.
  \<^item> \<^verbatim>\<open>_dbus_assert\<close> stops the program when its condition is false (a build with
    assertions enabled); the model stops with \<open>Assertion_Failed\<close>.
  \<^item> An opaque \<^verbatim>\<open>void *\<close> and a \<^verbatim>\<open>DBusFreeFunction\<close> are addresses, \<open>None\<close> being
    \<^verbatim>\<open>NULL\<close>. Calling a free function is recorded in a trace of calls; a free function
    is taken not to reach back into the list it is called from.
  \<^item> The mutex only matters through the result of \<^verbatim>\<open>dbus_mutex_lock\<close>, a parameter of
    the model: the calls are sequential.
  \<^item> C identifiers that start with an underscore lose it.
\<close>

subsection \<open>Memory\<close>

datatype error = Assertion_Failed | Invalid_Access

datatype 'a ptr = Null | Block "'a list"

fun cells :: "'a ptr \<Rightarrow> 'a list" where
  "cells Null = []"
| "cells (Block xs) = xs"

text \<open>\<^verbatim>\<open>p[i]\<close> as an rvalue.\<close>

fun rd :: "'a ptr \<Rightarrow> int \<Rightarrow> 'a option" where
  "rd Null i = None"
| "rd (Block xs) i = (if 0 \<le> i \<and> i < int (length xs) then Some (xs ! nat i) else None)"

text \<open>\<^verbatim>\<open>p[i] = v\<close>.\<close>

fun wr :: "'a ptr \<Rightarrow> int \<Rightarrow> 'a \<Rightarrow> 'a ptr option" where
  "wr Null i v = None"
| "wr (Block xs) i v =
     (if 0 \<le> i \<and> i < int (length xs) then Some (Block (xs[nat i := v])) else None)"

text \<open>
  Modelled from the spec: \<^verbatim>\<open>dbus_realloc\<close> is defined outside this file. The spec calls
  it ``a dynamic-memory reallocation/free primitive that reports failure rather than
  aborting, supplied by the hosting environment''. Its answer is a parameter of the
  model: \<open>No_Memory\<close>, or \<open>Fresh junk\<close> where \<open>junk i\<close> is what cell \<open>i\<close> holds when it is new.
  The size is counted in cells, not bytes. A successful call keeps the old cells that
  fit; a request for no cell, or for a negative number of them (an enormous
  \<^verbatim>\<open>size_t\<close>), is answered \<^verbatim>\<open>NULL\<close>.
\<close>

datatype 'a heap_reply = No_Memory | Fresh "nat \<Rightarrow> 'a"

definition dbus_realloc :: "'a heap_reply \<Rightarrow> 'a ptr \<Rightarrow> int \<Rightarrow> 'a ptr" where
  "dbus_realloc mem p n =
     (case mem of
        No_Memory \<Rightarrow> Null
      | Fresh junk \<Rightarrow>
          if n \<le> 0 then Null
          else Block (map (\<lambda>i. if i < length (cells p) then cells p ! i else junk i)
                          [0..<nat n]))"

definition dbus_assert :: "bool \<Rightarrow> error + 'a \<Rightarrow> error + 'a" where
  "dbus_assert c k = (if c then k else Inl Assertion_Failed)"

subsection \<open>The allocator\<close>

record DBusDataSlotAllocator =
  allocated_slots :: "int ptr"
  n_allocated_slots :: int
  n_used_slots :: int
  lock :: "nat option"

text \<open>\<open>new_mutex\<close> is what \<^verbatim>\<open>dbus_mutex_new ()\<close> returns.\<close>

definition dbus_data_slot_allocator_init ::
  "nat option \<Rightarrow> DBusDataSlotAllocator \<Rightarrow> bool \<times> DBusDataSlotAllocator" where
  "dbus_data_slot_allocator_init new_mutex allocator =
     (let a = allocator\<lparr>allocated_slots := Null, n_allocated_slots := 0,
                          n_used_slots := 0, lock := new_mutex\<rparr>
      in (if lock a = None then False else True, a))"

text \<open>
  The loop of lines 74--83: it leaves with \<^verbatim>\<open>break\<close> once a negative cell is found and
  taken, or with \<open>slot = n_allocated_slots\<close>.
\<close>

function alloc_scan ::
  "DBusDataSlotAllocator \<Rightarrow> int \<Rightarrow> error + (int \<times> DBusDataSlotAllocator)" where
  "alloc_scan a slot =
     (if slot < n_allocated_slots a then
        (case rd (allocated_slots a) slot of
           None \<Rightarrow> Inl Invalid_Access
         | Some v \<Rightarrow>
             if v < 0 then
               (case wr (allocated_slots a) slot slot of
                  None \<Rightarrow> Inl Invalid_Access
                | Some p \<Rightarrow>
                    Inr (slot, a\<lparr>allocated_slots := p,
                                  n_used_slots := n_used_slots a + 1\<rparr>))
             else alloc_scan a (slot + 1))
      else Inr (slot, a))"
  by pat_completeness auto
termination
  by (relation "measure (\<lambda>(a, slot). nat (n_allocated_slots a - slot))") auto

text \<open>
  \<open>lock_ok\<close> is the result of \<^verbatim>\<open>dbus_mutex_lock\<close>, \<open>mem\<close> the answer of
  \<^verbatim>\<open>dbus_realloc\<close>. The result is the returned \<^verbatim>\<open>int\<close> and the allocator after the call.
\<close>

definition dbus_data_slot_allocator_alloc ::
  "bool \<Rightarrow> int heap_reply \<Rightarrow> DBusDataSlotAllocator
     \<Rightarrow> error + (int \<times> DBusDataSlotAllocator)" where
  "dbus_data_slot_allocator_alloc lock_ok mem a =
     (if \<not> lock_ok then Inr (- 1, a)
      else if n_used_slots a < n_allocated_slots a then
        (case alloc_scan a 0 of
           Inl e \<Rightarrow> Inl e
         | Inr (slot, a') \<Rightarrow>
             dbus_assert (slot < n_allocated_slots a')
               (dbus_assert (slot \<ge> 0)
                 (dbus_assert (slot < n_allocated_slots a')
                   (Inr (slot, a')))))
      else
        (case dbus_realloc mem (allocated_slots a) (n_allocated_slots a + 1) of
           Null \<Rightarrow> Inr (- 1, a)
         | Block tmp \<Rightarrow>
             (let a1 = a\<lparr>allocated_slots := Block tmp\<rparr>;
                  slot = n_allocated_slots a1;
                  a2 = a1\<lparr>n_allocated_slots := n_allocated_slots a1 + 1\<rparr>;
                  a3 = a2\<lparr>n_used_slots := n_used_slots a2 + 1\<rparr>
              in case wr (allocated_slots a3) slot slot of
                   None \<Rightarrow> Inl Invalid_Access
                 | Some p \<Rightarrow>
                     (let a4 = a3\<lparr>allocated_slots := p\<rparr>
                      in dbus_assert (slot \<ge> 0)
                           (dbus_assert (slot < n_allocated_slots a4)
                             (Inr (slot, a4)))))))"

text \<open>The result of \<^verbatim>\<open>dbus_mutex_lock\<close> is not looked at by this function.\<close>

definition dbus_data_slot_allocator_free ::
  "DBusDataSlotAllocator \<Rightarrow> int \<Rightarrow> error + DBusDataSlotAllocator" where
  "dbus_data_slot_allocator_free a slot =
     dbus_assert (slot < n_allocated_slots a)
       (case rd (allocated_slots a) slot of
          None \<Rightarrow> Inl Invalid_Access
        | Some v \<Rightarrow>
            dbus_assert (v = slot)
              (case wr (allocated_slots a) slot (- 1) of
                 None \<Rightarrow> Inl Invalid_Access
               | Some p \<Rightarrow>
                   (let a1 = a\<lparr>allocated_slots := p\<rparr>;
                        a2 = a1\<lparr>n_used_slots := n_used_slots a1 - 1\<rparr>
                    in if n_used_slots a2 = 0
                       then Inr (a2\<lparr>allocated_slots := Null, n_allocated_slots := 0\<rparr>)
                       else Inr a2)))"

subsection \<open>The slot list\<close>

type_synonym void_ptr = "nat option"
type_synonym DBusFreeFunction = "nat option"

record DBusDataSlot =
  data :: void_ptr
  free_data_func :: DBusFreeFunction

record DBusDataSlotList =
  slots :: "DBusDataSlot ptr"
  n_slots :: int

text \<open>The calls of free functions made so far: the function called and its argument.\<close>

type_synonym trace = "(nat \<times> void_ptr) list"

definition dbus_data_slot_list_init :: "DBusDataSlotList \<Rightarrow> DBusDataSlotList" where
  "dbus_data_slot_list_init list = list\<lparr>slots := Null, n_slots := 0\<rparr>"

text \<open>The loop of lines 197--202.\<close>

function list_set_fill :: "DBusDataSlotList \<Rightarrow> int \<Rightarrow> error + DBusDataSlotList" where
  "list_set_fill list i =
     (if i < n_slots list then
        (case wr (slots list) i \<lparr>data = None, free_data_func = None\<rparr> of
           None \<Rightarrow> Inl Invalid_Access
         | Some p \<Rightarrow> list_set_fill (list\<lparr>slots := p\<rparr>) (i + 1))
      else Inr list)"
  by pat_completeness auto
termination
  by (relation "measure (\<lambda>(list, i). nat (n_slots list - i))") auto

text \<open>
  The block of lines 184--203, entered when \<open>slot \<ge> n_slots\<close>: \<open>None\<close> stands for the
  \<^verbatim>\<open>return FALSE\<close> in it.
\<close>

definition list_set_grow ::
  "DBusDataSlot heap_reply \<Rightarrow> DBusDataSlotList \<Rightarrow> int
     \<Rightarrow> error + DBusDataSlotList option" where
  "list_set_grow mem list slot =
     (case dbus_realloc mem (slots list) (slot + 1) of
        Null \<Rightarrow> Inr None
      | Block tmp \<Rightarrow>
          (let l1 = list\<lparr>slots := Block tmp\<rparr>;
               i = n_slots l1;
               l2 = l1\<lparr>n_slots := slot + 1\<rparr>
           in case list_set_fill l2 i of
                Inl e \<Rightarrow> Inl e
              | Inr l3 \<Rightarrow> Inr (Some l3)))"

text \<open>
  The result is the returned boolean, the list after the call, what was written to
  \<^verbatim>\<open>*old_free_func\<close> and \<^verbatim>\<open>*old_data\<close> (\<open>None\<close> when the function returned without
  writing them) and the trace of free-function calls, which the function receives and
  hands back.
\<close>

definition dbus_data_slot_list_set ::
  "DBusDataSlot heap_reply \<Rightarrow> DBusDataSlotAllocator \<Rightarrow> DBusDataSlotList \<Rightarrow> int
     \<Rightarrow> void_ptr \<Rightarrow> DBusFreeFunction \<Rightarrow> trace
     \<Rightarrow> error + (bool \<times> DBusDataSlotList \<times> (DBusFreeFunction \<times> void_ptr) option \<times> trace)"
  where
  "dbus_data_slot_list_set mem allocator list slot d free_func tr =
     dbus_assert (slot < n_allocated_slots allocator)
       (case rd (allocated_slots allocator) slot of
          None \<Rightarrow> Inl Invalid_Access
        | Some v \<Rightarrow>
            dbus_assert (v = slot)
              (case (if slot \<ge> n_slots list then list_set_grow mem list slot
                     else Inr (Some list)) of
                 Inl e \<Rightarrow> Inl e
               | Inr None \<Rightarrow> Inr (False, list, None, tr)
               | Inr (Some l1) \<Rightarrow>
                   dbus_assert (slot < n_slots l1)
                     (case rd (slots l1) slot of
                        None \<Rightarrow> Inl Invalid_Access
                      | Some old \<Rightarrow>
                          (case wr (slots l1) slot
                                  \<lparr>data = d, free_data_func = free_func\<rparr> of
                             None \<Rightarrow> Inl Invalid_Access
                           | Some p \<Rightarrow>
                               Inr (True, l1\<lparr>slots := p\<rparr>,
                                    Some (free_data_func old, data old), tr)))))"

text \<open>The result is the returned pointer and the list after the call.\<close>

definition dbus_data_slot_list_get ::
  "DBusDataSlotAllocator \<Rightarrow> DBusDataSlotList \<Rightarrow> int
     \<Rightarrow> error + (void_ptr \<times> DBusDataSlotList)" where
  "dbus_data_slot_list_get allocator list slot =
     dbus_assert (slot < n_allocated_slots allocator)
       (case rd (allocated_slots allocator) slot of
          None \<Rightarrow> Inl Invalid_Access
        | Some v \<Rightarrow>
            dbus_assert (v = slot)
              (if slot \<ge> n_slots list then Inr (None, list)
               else (case rd (slots list) slot of
                       None \<Rightarrow> Inl Invalid_Access
                     | Some s \<Rightarrow> Inr (data s, list))))"

text \<open>The loop of lines 252--259.\<close>

function list_free_loop ::
  "DBusDataSlotList \<Rightarrow> int \<Rightarrow> trace \<Rightarrow> error + (DBusDataSlotList \<times> trace)" where
  "list_free_loop list i tr =
     (if i < n_slots list then
        (case rd (slots list) i of
           None \<Rightarrow> Inl Invalid_Access
         | Some s \<Rightarrow>
             (let tr' = (case free_data_func s of
                           None \<Rightarrow> tr
                         | Some f \<Rightarrow> tr @ [(f, data s)])
              in case wr (slots list) i \<lparr>data = None, free_data_func = None\<rparr> of
                   None \<Rightarrow> Inl Invalid_Access
                 | Some p \<Rightarrow> list_free_loop (list\<lparr>slots := p\<rparr>) (i + 1) tr'))
      else Inr (list, tr))"
  by pat_completeness auto
termination
  by (relation "measure (\<lambda>(list, i, tr). nat (n_slots list - i))") auto

definition dbus_data_slot_list_free ::
  "DBusDataSlotList \<Rightarrow> trace \<Rightarrow> error + (DBusDataSlotList \<times> trace)" where
  "dbus_data_slot_list_free list tr =
     (case list_free_loop list 0 tr of
        Inl e \<Rightarrow> Inl e
      | Inr (l1, tr') \<Rightarrow> Inr (l1\<lparr>slots := Null, n_slots := 0\<rparr>, tr'))"

subsection \<open>States of the two structures\<close>

text \<open>
  An allocator state: the table has \<open>n_allocated_slots\<close> cells, cell \<open>i\<close> holds \<open>i\<close> (in use)
  or a negative number (free), and \<open>n_used_slots\<close> counts the cells in use.
\<close>

definition allocator_ok :: "DBusDataSlotAllocator \<Rightarrow> bool" where
  "allocator_ok a =
     (let t = cells (allocated_slots a)
      in n_allocated_slots a = int (length t)
         \<and> list_all (\<lambda>i. t ! i = int i \<or> t ! i < 0) [0..<length t]
         \<and> n_used_slots a = int (length (filter (\<lambda>i. t ! i = int i) [0..<length t])))"

text \<open>The indices of the cells in use.\<close>

definition used :: "int list \<Rightarrow> nat set" where
  "used t = set (filter (\<lambda>i. t ! i = int i) [0..<length t])"

text \<open>
  A slot identifier that is currently allocated: what the two assertions at the head of
  \<^verbatim>\<open>_dbus_data_slot_allocator_free\<close>, \<^verbatim>\<open>_dbus_data_slot_list_set\<close> and
  \<^verbatim>\<open>_dbus_data_slot_list_get\<close> check.
\<close>

definition slot_allocated :: "DBusDataSlotAllocator \<Rightarrow> int \<Rightarrow> bool" where
  "slot_allocated a slot =
     (slot < n_allocated_slots a \<and> rd (allocated_slots a) slot = Some slot)"

text \<open>A list state: the array has \<open>n_slots\<close> cells.\<close>

definition list_ok :: "DBusDataSlotList \<Rightarrow> bool" where
  "list_ok list = (n_slots list = int (length (cells (slots list))))"

subsection \<open>Clients of the allocator\<close>

text \<open>
  A client makes a sequence of calls and keeps the identifiers it was given and has not
  given back: a successful \<^verbatim>\<open>_dbus_data_slot_allocator_alloc\<close> adds the returned identifier
  to them, \<^verbatim>\<open>_dbus_data_slot_allocator_free\<close> takes one occurrence of the freed identifier
  away. Each call to the allocation function comes with the results of
  \<^verbatim>\<open>dbus_mutex_lock\<close> and \<^verbatim>\<open>dbus_realloc\<close> in it.
\<close>

datatype call = Alloc bool "int heap_reply" | Free int

type_synonym client = "DBusDataSlotAllocator \<times> int list"

fun client_call :: "call \<Rightarrow> client \<Rightarrow> error + client" where
  "client_call (Alloc lock_ok mem) (a, ids) =
     (case dbus_data_slot_allocator_alloc lock_ok mem a of
        Inl e \<Rightarrow> Inl e
      | Inr (slot, a') \<Rightarrow> Inr (a', if slot < 0 then ids else ids @ [slot]))"
| "client_call (Free slot) (a, ids) =
     (case dbus_data_slot_allocator_free a slot of
        Inl e \<Rightarrow> Inl e
      | Inr a' \<Rightarrow> Inr (a', remove1 slot ids))"

fun run :: "call list \<Rightarrow> client \<Rightarrow> error + client" where
  "run [] c = Inr c"
| "run (x # xs) c = (case client_call x c of Inl e \<Rightarrow> Inl e | Inr c' \<Rightarrow> run xs c')"

text \<open>Every \<open>Free\<close> of the sequence is of an identifier the client holds at that point.\<close>

fun frees_live :: "call list \<Rightarrow> client \<Rightarrow> bool" where
  "frees_live [] c = True"
| "frees_live (x # xs) c =
     ((case x of Free slot \<Rightarrow> slot \<in> set (snd c) | Alloc lock_ok mem \<Rightarrow> True)
      \<and> (case client_call x c of Inl e \<Rightarrow> True | Inr c' \<Rightarrow> frees_live xs c'))"

text \<open>
  What ties the two: the allocator is in an allocator state and the client holds each
  identifier in use exactly once.
\<close>

definition client_ok :: "client \<Rightarrow> bool" where
  "client_ok c =
     (allocator_ok (fst c) \<and> distinct (snd c)
      \<and> set (snd c) = int ` used (cells (allocated_slots (fst c))))"

subsection \<open>Calls of free functions\<close>

text \<open>
  What the spec expects of \<^verbatim>\<open>_dbus_data_slot_list_free\<close>: one call for each cell with a free
  function, on the data of that cell, in the order of the cells.
\<close>

fun expected_calls :: "DBusDataSlot list \<Rightarrow> trace" where
  "expected_calls [] = []"
| "expected_calls (s # ss) =
     (case free_data_func s of
        None \<Rightarrow> expected_calls ss
      | Some f \<Rightarrow> (f, data s) # expected_calls ss)"

subsection \<open>Example states\<close>

definition example_allocator :: DBusDataSlotAllocator where
  "example_allocator =
     \<lparr>allocated_slots = Block [0, 1, 2, 3], n_allocated_slots = 4, n_used_slots = 4,
      lock = Some 1\<rparr>"

definition example_list :: DBusDataSlotList where
  "example_list =
     \<lparr>slots = Block [\<lparr>data = Some 10, free_data_func = Some 5\<rparr>,
                     \<lparr>data = None, free_data_func = None\<rparr>],
      n_slots = 2\<rparr>"

declare alloc_scan.simps [simp del]
declare list_set_fill.simps [simp del]
declare list_free_loop.simps [simp del]

section \<open>Properties\<close>

subsection \<open>Memory\<close>

lemma rd_cells:
  "rd p i = Some v \<longleftrightarrow> 0 \<le> i \<and> i < int (length (cells p)) \<and> cells p ! nat i = v"
  by (cases p) auto

lemma wr_cells:
  "0 \<le> i \<Longrightarrow> i < int (length (cells p)) \<Longrightarrow>
   wr p i v = Some (Block ((cells p)[nat i := v]))"
  by (cases p) auto

lemma nat_int_succ: "nat (int n + 1) = Suc n"
  by linarith

lemma dbus_realloc_grow:
  "0 < n \<Longrightarrow> length (cells p) \<le> nat n \<Longrightarrow>
   dbus_realloc (Fresh junk) p n = Block (cells p @ map junk [length (cells p)..<nat n])"
  by (auto simp: dbus_realloc_def nth_append intro!: nth_equalityI)

lemma dbus_realloc_fail: "dbus_realloc No_Memory p n = Null"
  by (simp add: dbus_realloc_def)

subsection \<open>Allocator states\<close>

lemma used_iff: "i \<in> used t \<longleftrightarrow> i < length t \<and> t ! i = int i"
  by (auto simp: used_def)

lemma finite_used: "finite (used t)"
  by (simp add: used_def)

lemma count_used: "length (filter (\<lambda>i. t ! i = int i) [0..<length t]) = card (used t)"
  unfolding used_def by (rule distinct_card [symmetric]) simp

lemma allocator_ok_iff:
  "allocator_ok a \<longleftrightarrow>
     n_allocated_slots a = int (length (cells (allocated_slots a)))
     \<and> (\<forall>i<length (cells (allocated_slots a)).
           cells (allocated_slots a) ! i = int i \<or> cells (allocated_slots a) ! i < 0)
     \<and> n_used_slots a = int (card (used (cells (allocated_slots a))))"
  by (auto simp: allocator_ok_def Let_def list_all_iff count_used)

lemma used_take: "i < length t \<Longrightarrow> t ! i < 0 \<Longrightarrow> used (t[i := int i]) = insert i (used t)"
  by (auto simp: used_iff nth_list_update split: if_splits)

lemma used_give: "used (t[i := - 1]) = used t - {i}"
proof -
  have "(t[i := - 1] ! x = int x) = (x \<noteq> i \<and> t ! x = int x)" if "x < length t" for x
    using that by (cases "x = i") auto
  then show ?thesis by (auto simp: used_iff)
qed

lemma used_append: "used (t @ [int (length t)]) = insert (length t) (used t)"
  by (auto simp: used_iff nth_append less_Suc_eq)

lemma used_bound: "i \<in> used t \<Longrightarrow> i < length t"
  by (simp add: used_iff)

lemma free_cell_not_used: "t ! i < 0 \<Longrightarrow> i \<notin> used t"
  by (simp add: used_iff)


subsection \<open>The allocator\<close>

lemma allocator_ok_length:
  "allocator_ok a \<Longrightarrow> n_allocated_slots a = int (length (cells (allocated_slots a)))"
  by (simp add: allocator_ok_iff)

lemma slot_allocated_iff:
  "slot_allocated a slot \<longleftrightarrow>
     0 \<le> slot \<and> slot < n_allocated_slots a
     \<and> slot < int (length (cells (allocated_slots a)))
     \<and> cells (allocated_slots a) ! nat slot = slot"
  by (auto simp: slot_allocated_def rd_cells)

lemma alloc_scan_finds:
  assumes "n_allocated_slots a = int (length (cells (allocated_slots a)))"
    and "0 \<le> k" and "k \<le> m" and "m < n_allocated_slots a"
    and "cells (allocated_slots a) ! nat m < 0"
    and "\<forall>j. k \<le> j \<and> j < m \<longrightarrow> \<not> cells (allocated_slots a) ! nat j < 0"
  shows "alloc_scan a k =
           Inr (m, a\<lparr>allocated_slots := Block ((cells (allocated_slots a))[nat m := m]),
                     n_used_slots := n_used_slots a + 1\<rparr>)"
  using assms
proof (induction a k rule: alloc_scan.induct)
  case (1 a slot)
  let ?t = "cells (allocated_slots a)"
  have in_range: "slot < n_allocated_slots a" using "1.prems" by linarith
  have rd_ok: "rd (allocated_slots a) slot = Some (?t ! nat slot)"
    using "1.prems" in_range by (simp add: rd_cells)
  show ?case
  proof (cases "slot = m")
    case True
    have "wr (allocated_slots a) slot slot = Some (Block (?t[nat slot := slot]))"
      using "1.prems" in_range by (simp add: wr_cells)
    then show ?thesis
      using True "1.prems" in_range rd_ok by (subst alloc_scan.simps) simp
  next
    case False
    then have lt: "slot < m" using "1.prems" by linarith
    then have nonneg: "\<not> ?t ! nat slot < 0" using "1.prems" by simp
    have "alloc_scan a (slot + 1) =
           Inr (m, a\<lparr>allocated_slots := Block (?t[nat m := m]),
                     n_used_slots := n_used_slots a + 1\<rparr>)"
      using "1.prems" lt nonneg in_range rd_ok
      by (intro "1.IH") auto
    then show ?thesis
      using in_range rd_ok nonneg by (subst alloc_scan.simps) simp
  qed
qed

lemma allocator_ok_free_cell:
  assumes ok: "allocator_ok a" and less: "n_used_slots a < n_allocated_slots a"
  shows "\<exists>i<length (cells (allocated_slots a)). cells (allocated_slots a) ! i < 0"
proof (rule ccontr)
  let ?t = "cells (allocated_slots a)"
  assume "\<not> (\<exists>i<length ?t. ?t ! i < 0)"
  then have "\<forall>i<length ?t. ?t ! i = int i"
    using ok by (auto simp: allocator_ok_iff)
  then have "used ?t = {..<length ?t}" by (auto simp: used_iff)
  then have "card (used ?t) = length ?t" by simp
  then show False using ok less by (simp add: allocator_ok_iff)
qed

text \<open>The call that finds a free cell.\<close>

lemma alloc_reuse:
  assumes ok: "allocator_ok a" and less: "n_used_slots a < n_allocated_slots a"
  shows "\<exists>m<length (cells (allocated_slots a)).
           cells (allocated_slots a) ! m < 0
           \<and> (\<forall>j<m. \<not> cells (allocated_slots a) ! j < 0)
           \<and> dbus_data_slot_allocator_alloc True mem a =
               Inr (int m,
                    a\<lparr>allocated_slots := Block ((cells (allocated_slots a))[m := int m]),
                      n_used_slots := n_used_slots a + 1\<rparr>)"
proof -
  let ?t = "cells (allocated_slots a)"
  let ?P = "\<lambda>i. i < length ?t \<and> ?t ! i < 0"
  define m where "m = (LEAST i. ?P i)"
  have ex: "\<exists>i. ?P i" using allocator_ok_free_cell [OF ok less] by blast
  have Pm: "?P m" unfolding m_def using ex by (rule LeastI_ex)
  have least: "\<not> ?t ! j < 0" if "j < m" for j
  proof -
    have "\<not> ?P j" using that unfolding m_def by (rule not_less_Least)
    moreover have "j < length ?t" using that Pm by linarith
    ultimately show ?thesis by simp
  qed
  have len: "n_allocated_slots a = int (length ?t)" using ok by (rule allocator_ok_length)
  have before: "\<forall>j. 0 \<le> j \<and> j < int m \<longrightarrow> \<not> ?t ! nat j < 0"
    using least by (simp add: nat_less_iff)
  have scan: "alloc_scan a 0 =
           Inr (int m, a\<lparr>allocated_slots := Block (?t[nat (int m) := int m]),
                         n_used_slots := n_used_slots a + 1\<rparr>)"
    using len Pm before by (intro alloc_scan_finds) auto
  have "dbus_data_slot_allocator_alloc True mem a =
               Inr (int m, a\<lparr>allocated_slots := Block (?t[m := int m]),
                             n_used_slots := n_used_slots a + 1\<rparr>)"
    using less len Pm
    by (simp add: dbus_data_slot_allocator_alloc_def scan dbus_assert_def)
  then show ?thesis using Pm least by blast
qed

text \<open>The call that grows the table.\<close>

lemma alloc_grow:
  assumes len: "n_allocated_slots a = int (length (cells (allocated_slots a)))"
    and full: "\<not> n_used_slots a < n_allocated_slots a"
  shows "dbus_data_slot_allocator_alloc True (Fresh junk) a =
           Inr (n_allocated_slots a,
                a\<lparr>allocated_slots :=
                    Block (cells (allocated_slots a) @ [n_allocated_slots a]),
                  n_allocated_slots := n_allocated_slots a + 1,
                  n_used_slots := n_used_slots a + 1\<rparr>)"
proof -
  let ?t = "cells (allocated_slots a)"
  have re: "dbus_realloc (Fresh junk) (allocated_slots a) (int (length ?t) + 1)
              = Block (?t @ [junk (length ?t)])"
    by (simp add: dbus_realloc_grow nat_int_succ)
  show ?thesis
    using full len
    by (simp add: dbus_data_slot_allocator_alloc_def re dbus_assert_def Let_def)
qed

lemma alloc_no_memory:
  "\<not> n_used_slots a < n_allocated_slots a \<Longrightarrow>
   dbus_data_slot_allocator_alloc True No_Memory a = Inr (- 1, a)"
  by (simp add: dbus_data_slot_allocator_alloc_def dbus_realloc_fail)

lemma alloc_no_lock: "dbus_data_slot_allocator_alloc False mem a = Inr (- 1, a)"
  by (simp add: dbus_data_slot_allocator_alloc_def)

lemma free_allocated:
  assumes live: "slot_allocated a slot"
  shows "dbus_data_slot_allocator_free a slot =
           Inr (if n_used_slots a - 1 = 0
                then a\<lparr>allocated_slots := Null, n_allocated_slots := 0, n_used_slots := 0\<rparr>
                else a\<lparr>allocated_slots :=
                         Block ((cells (allocated_slots a))[nat slot := - 1]),
                       n_used_slots := n_used_slots a - 1\<rparr>)"
proof -
  let ?t = "cells (allocated_slots a)"
  have rng: "0 \<le> slot" "slot < n_allocated_slots a" "slot < int (length ?t)"
    using live by (simp_all add: slot_allocated_iff)
  have rd_ok: "rd (allocated_slots a) slot = Some slot"
    using live by (simp add: slot_allocated_def)
  have wr_ok: "wr (allocated_slots a) slot (- 1) = Some (Block (?t[nat slot := - 1]))"
    using rng by (simp add: wr_cells)
  show ?thesis
    using rng
    by (simp add: dbus_data_slot_allocator_free_def dbus_assert_def rd_ok wr_ok Let_def)
qed

lemma alloc_from_empty:
  assumes "n_allocated_slots a = 0" and "n_used_slots a = 0" and "allocated_slots a = Null"
  shows "dbus_data_slot_allocator_alloc True (Fresh junk) a =
           Inr (0, a\<lparr>allocated_slots := Block [0], n_allocated_slots := 1,
                     n_used_slots := 1\<rparr>)"
  using assms
  by (simp add: dbus_data_slot_allocator_alloc_def dbus_realloc_def dbus_assert_def)


text \<open>
  C1. In an allocator state with \<open>n_used_slots < n_allocated_slots\<close>, once the lock is
  taken, \<^verbatim>\<open>_dbus_data_slot_allocator_alloc\<close> returns the smallest index whose cell is
  negative, whatever \<^verbatim>\<open>dbus_realloc\<close> would answer; afterwards that cell holds its own
  index, \<open>n_used_slots\<close> is one more, and every other cell, \<open>n_allocated_slots\<close> and the lock
  are as before.
\<close>

theorem alloc_takes_first_free_slot:
  assumes ok: "allocator_ok a" and less: "n_used_slots a < n_allocated_slots a"
  shows "\<exists>slot. 0 \<le> slot \<and> slot < n_allocated_slots a
           \<and> cells (allocated_slots a) ! nat slot < 0
           \<and> (\<forall>j. 0 \<le> j \<and> j < slot \<longrightarrow> \<not> cells (allocated_slots a) ! nat j < 0)
           \<and> dbus_data_slot_allocator_alloc True mem a =
               Inr (slot,
                    a\<lparr>allocated_slots :=
                        Block ((cells (allocated_slots a))[nat slot := slot]),
                      n_used_slots := n_used_slots a + 1\<rparr>)"
proof -
  let ?t = "cells (allocated_slots a)"
  obtain m where m: "m < length ?t" "?t ! m < 0" "\<forall>j<m. \<not> ?t ! j < 0"
    and res: "dbus_data_slot_allocator_alloc True mem a =
               Inr (int m, a\<lparr>allocated_slots := Block (?t[m := int m]),
                             n_used_slots := n_used_slots a + 1\<rparr>)"
    using alloc_reuse [OF ok less] by blast
  have "\<forall>j. 0 \<le> j \<and> j < int m \<longrightarrow> \<not> ?t ! nat j < 0"
    using m(3) by (simp add: nat_less_iff)
  then show ?thesis
    using m res allocator_ok_length [OF ok] by (intro exI [of _ "int m"]) simp
qed

theorem alloc_takes_first_free_slot_witness:
  "allocator_ok \<lparr>allocated_slots = Block [0, - 1, 2, - 1], n_allocated_slots = 4,
                 n_used_slots = 2, lock = Some 1\<rparr>
   \<and> dbus_data_slot_allocator_alloc True No_Memory
        \<lparr>allocated_slots = Block [0, - 1, 2, - 1], n_allocated_slots = 4,
         n_used_slots = 2, lock = Some 1\<rparr>
      = Inr (1, \<lparr>allocated_slots = Block [0, 1, 2, - 1], n_allocated_slots = 4,
                 n_used_slots = 3, lock = Some 1\<rparr>)
   \<and> [0, - 1, 2, - 1 :: int] ! nat 1 < 0 \<and> \<not> [0, - 1, 2, - 1 :: int] ! nat 0 < 0"
  using alloc_takes_first_free_slot
          [of "\<lparr>allocated_slots = Block [0, - 1, 2, - 1], n_allocated_slots = 4,
                n_used_slots = 2, lock = Some 1\<rparr>" No_Memory]
  by (simp add: allocator_ok_def upt_conv_Cons dbus_data_slot_allocator_alloc_def
        alloc_scan.simps dbus_assert_def)

text \<open>
  C2. In an allocator state with \<open>n_used_slots = n_allocated_slots\<close>, once the lock is
  taken, \<^verbatim>\<open>_dbus_data_slot_allocator_alloc\<close> asks for a table of one more cell. If
  \<^verbatim>\<open>dbus_realloc\<close> fails, it returns \<open>-1\<close> and the allocator is as it was. If it succeeds,
  whatever the new cell held, the function returns the old \<open>n_allocated_slots\<close>, the table
  is the old one followed by one cell that holds its own index, and both counters are
  one more than before.
\<close>

theorem alloc_grows_by_one:
  assumes ok: "allocator_ok a" and full: "n_used_slots a = n_allocated_slots a"
  shows "dbus_data_slot_allocator_alloc True No_Memory a = Inr (- 1, a)
       \<and> dbus_data_slot_allocator_alloc True (Fresh junk) a =
           Inr (n_allocated_slots a,
                a\<lparr>allocated_slots :=
                    Block (cells (allocated_slots a) @ [n_allocated_slots a]),
                  n_allocated_slots := n_allocated_slots a + 1,
                  n_used_slots := n_used_slots a + 1\<rparr>)"
  using full allocator_ok_length [OF ok]
  by (simp add: alloc_no_memory alloc_grow)

theorem alloc_grows_by_one_witness:
  "allocator_ok \<lparr>allocated_slots = Block [0, 1], n_allocated_slots = 2,
                 n_used_slots = 2, lock = Some 1\<rparr>
   \<and> dbus_data_slot_allocator_alloc True No_Memory
        \<lparr>allocated_slots = Block [0, 1], n_allocated_slots = 2,
         n_used_slots = 2, lock = Some 1\<rparr>
      = Inr (- 1, \<lparr>allocated_slots = Block [0, 1], n_allocated_slots = 2,
                   n_used_slots = 2, lock = Some 1\<rparr>)
   \<and> dbus_data_slot_allocator_alloc True (Fresh (\<lambda>i. 7))
        \<lparr>allocated_slots = Block [0, 1], n_allocated_slots = 2,
         n_used_slots = 2, lock = Some 1\<rparr>
      = Inr (2, \<lparr>allocated_slots = Block [0, 1, 2], n_allocated_slots = 3,
                 n_used_slots = 3, lock = Some 1\<rparr>)"
  using alloc_grows_by_one [of "\<lparr>allocated_slots = Block [0, 1], n_allocated_slots = 2,
                                 n_used_slots = 2, lock = Some 1\<rparr>" "\<lambda>i. 7"]
  by (simp add: allocator_ok_def upt_conv_Cons)

text \<open>
  C3. For an identifier that is currently allocated, \<^verbatim>\<open>_dbus_data_slot_allocator_free\<close>
  returns normally. If \<open>n_used_slots\<close> was not one, the cell of the identifier holds \<open>-1\<close>
  afterwards and \<open>n_used_slots\<close> is one less, the rest being as before. If it was one,
  the table pointer is \<^verbatim>\<open>NULL\<close> and both counters are zero afterwards, and the next
  \<^verbatim>\<open>_dbus_data_slot_allocator_alloc\<close> that gets the lock and the memory returns 0.
\<close>

theorem free_releases_slot:
  assumes live: "slot_allocated a slot"
  shows "dbus_data_slot_allocator_free a slot =
           Inr (if n_used_slots a - 1 = 0
                then a\<lparr>allocated_slots := Null, n_allocated_slots := 0, n_used_slots := 0\<rparr>
                else a\<lparr>allocated_slots :=
                         Block ((cells (allocated_slots a))[nat slot := - 1]),
                       n_used_slots := n_used_slots a - 1\<rparr>)
       \<and> (n_used_slots a - 1 = 0 \<longrightarrow>
            (\<forall>junk. dbus_data_slot_allocator_alloc True (Fresh junk)
                      (a\<lparr>allocated_slots := Null, n_allocated_slots := 0, n_used_slots := 0\<rparr>)
                    = Inr (0, a\<lparr>allocated_slots := Block [0], n_allocated_slots := 1,
                                n_used_slots := 1\<rparr>)))"
  using free_allocated [OF live] by (simp add: alloc_from_empty)

theorem free_releases_slot_witness:
  "slot_allocated \<lparr>allocated_slots = Block [- 1, 1], n_allocated_slots = 2,
                   n_used_slots = 1, lock = Some 1\<rparr> 1
   \<and> dbus_data_slot_allocator_free
        \<lparr>allocated_slots = Block [- 1, 1], n_allocated_slots = 2,
         n_used_slots = 1, lock = Some 1\<rparr> 1
      = Inr \<lparr>allocated_slots = Null, n_allocated_slots = 0, n_used_slots = 0, lock = Some 1\<rparr>
   \<and> dbus_data_slot_allocator_alloc True (Fresh (\<lambda>i. 7))
        \<lparr>allocated_slots = Null, n_allocated_slots = 0, n_used_slots = 0, lock = Some 1\<rparr>
      = Inr (0, \<lparr>allocated_slots = Block [0], n_allocated_slots = 1, n_used_slots = 1,
                 lock = Some 1\<rparr>)"
  using free_releases_slot [of "\<lparr>allocated_slots = Block [- 1, 1], n_allocated_slots = 2,
                   n_used_slots = 1, lock = Some 1\<rparr>" 1]
  by (simp add: slot_allocated_def)


subsection \<open>Sequences of calls\<close>

lemma client_ok_ids_nonneg: "client_ok (a, ids) \<Longrightarrow> slot \<in> set ids \<Longrightarrow> 0 \<le> slot"
  by (auto simp: client_ok_def)

lemma client_ok_alloc:
  assumes inv: "client_ok (a, ids)"
  shows "\<exists>slot a'. dbus_data_slot_allocator_alloc lock_ok mem a = Inr (slot, a')
           \<and> slot \<notin> set ids
           \<and> client_ok (a', if slot < 0 then ids else ids @ [slot])"
proof -
  let ?t = "cells (allocated_slots a)"
  have ok: "allocator_ok a" and dist: "distinct ids" and ids: "set ids = int ` used ?t"
    using inv by (simp_all add: client_ok_def)
  have len: "n_allocated_slots a = int (length ?t)" using ok by (rule allocator_ok_length)
  have failed: ?thesis if "dbus_data_slot_allocator_alloc lock_ok mem a = Inr (- 1, a)"
    using that inv client_ok_ids_nonneg [OF inv, of "- 1"] by auto
  show ?thesis
  proof (cases lock_ok)
    case False
    then show ?thesis using failed by (simp add: alloc_no_lock)
  next
    case True
    show ?thesis
    proof (cases "n_used_slots a < n_allocated_slots a")
      case less: True
      obtain m where m: "m < length ?t" "?t ! m < 0"
        and res: "dbus_data_slot_allocator_alloc True mem a =
               Inr (int m, a\<lparr>allocated_slots := Block (?t[m := int m]),
                             n_used_slots := n_used_slots a + 1\<rparr>)"
        using alloc_reuse [OF ok less] by blast
      let ?a' = "a\<lparr>allocated_slots := Block (?t[m := int m]),
                    n_used_slots := n_used_slots a + 1\<rparr>"
      have new: "m \<notin> used ?t" using m by (simp add: free_cell_not_used)
      have u: "used (?t[m := int m]) = insert m (used ?t)" using m by (rule used_take)
      have "allocator_ok ?a'"
        using ok new m by (auto simp: allocator_ok_iff u finite_used nth_list_update)
      moreover have "int m \<notin> set ids" using new ids by auto
      ultimately have "client_ok (?a', ids @ [int m])"
        using dist ids by (simp add: client_ok_def u)
      then show ?thesis using True res \<open>int m \<notin> set ids\<close> by simp
    next
      case full: False
      show ?thesis
      proof (cases mem)
        case No_Memory
        then show ?thesis using True full failed by (simp add: alloc_no_memory)
      next
        case (Fresh junk)
        let ?a' = "a\<lparr>allocated_slots := Block (?t @ [n_allocated_slots a]),
                      n_allocated_slots := n_allocated_slots a + 1,
                      n_used_slots := n_used_slots a + 1\<rparr>"
        have res: "dbus_data_slot_allocator_alloc True (Fresh junk) a =
                     Inr (n_allocated_slots a, ?a')"
          using len full by (rule alloc_grow)
        have new: "length ?t \<notin> used ?t" using used_bound by blast
        have u: "used (?t @ [int (length ?t)]) = insert (length ?t) (used ?t)"
          by (rule used_append)
        have "allocator_ok ?a'"
          using ok new
          by (auto simp: allocator_ok_iff len u finite_used nth_append less_Suc_eq)
        moreover have "int (length ?t) \<notin> set ids" using new ids by auto
        ultimately have "client_ok (?a', ids @ [int (length ?t)])"
          using dist ids by (simp add: client_ok_def u len)
        then show ?thesis
          using True Fresh res len \<open>int (length ?t) \<notin> set ids\<close> by simp
      qed
    qed
  qed
qed

lemma client_ok_free:
  assumes inv: "client_ok (a, ids)" and held: "slot \<in> set ids"
  shows "\<exists>a'. dbus_data_slot_allocator_free a slot = Inr a'
           \<and> client_ok (a', remove1 slot ids)"
proof -
  let ?t = "cells (allocated_slots a)"
  have ok: "allocator_ok a" and dist: "distinct ids" and ids: "set ids = int ` used ?t"
    using inv by (simp_all add: client_ok_def)
  have len: "n_allocated_slots a = int (length ?t)" using ok by (rule allocator_ok_length)
  obtain j where j: "j \<in> used ?t" and slot: "slot = int j" using held ids by auto
  have live: "slot_allocated a slot"
    using j slot len by (simp add: slot_allocated_iff used_iff)
  have count: "n_used_slots a = int (card (used ?t))"
    using ok by (simp add: allocator_ok_iff)
  have rest: "set (remove1 slot ids) = int ` (used ?t - {j})"
    using dist ids slot by (auto simp: set_remove1_eq)
  have dist': "distinct (remove1 slot ids)" using dist by simp
  show ?thesis
  proof (cases "n_used_slots a - 1 = 0")
    case True
    let ?a' = "a\<lparr>allocated_slots := Null, n_allocated_slots := 0, n_used_slots := 0\<rparr>"
    have "card (used ?t) = 1" using True count by simp
    then have "used ?t = {j}" using j by (auto simp: card_1_singleton_iff)
    then have "set (remove1 slot ids) = {}" using rest by simp
    moreover have "allocator_ok ?a'" by (simp add: allocator_ok_def used_def)
    moreover have "used [] = {}" by (simp add: used_def)
    ultimately have "client_ok (?a', remove1 slot ids)"
      using dist' by (simp add: client_ok_def)
    then show ?thesis using free_allocated [OF live] True by simp
  next
    case False
    let ?a' = "a\<lparr>allocated_slots := Block (?t[nat slot := - 1]),
                  n_used_slots := n_used_slots a - 1\<rparr>"
    have u: "used (?t[j := - 1]) = used ?t - {j}" by (rule used_give)
    have "card (used ?t - {j}) = card (used ?t) - 1"
      using j by (simp add: finite_used)
    moreover have "0 < card (used ?t)" using j finite_used card_gt_0_iff by blast
    ultimately have "n_used_slots a - 1 = int (card (used ?t - {j}))"
      using count by simp
    moreover have "\<forall>i<length ?t. ?t[j := - 1] ! i = int i \<or> ?t[j := - 1] ! i < 0"
      using ok used_bound [OF j] by (auto simp: allocator_ok_iff nth_list_update)
    ultimately have "allocator_ok ?a'"
      using len slot by (simp add: allocator_ok_iff u)
    then have "client_ok (?a', remove1 slot ids)"
      using dist' rest slot by (simp add: client_ok_def u)
    then show ?thesis using free_allocated [OF live] False by simp
  qed
qed

lemma run_client_ok:
  "client_ok c \<Longrightarrow> frees_live cs c \<Longrightarrow> \<exists>c'. run cs c = Inr c' \<and> client_ok c'"
proof (induction cs arbitrary: c)
  case Nil
  then show ?case by simp
next
  case (Cons x xs)
  obtain a ids where c: "c = (a, ids)" by (cases c)
  have "\<exists>c'. client_call x c = Inr c' \<and> client_ok c'"
  proof (cases x)
    case (Alloc lock_ok mem)
    then show ?thesis
      using client_ok_alloc [of a ids lock_ok mem] Cons.prems(1) c by auto
  next
    case (Free slot)
    then have "slot \<in> set ids" using Cons.prems(2) c by simp
    then show ?thesis
      using client_ok_free [of a ids slot] Cons.prems(1) c Free by auto
  qed
  then obtain c' where step: "client_call x c = Inr c'" and inv: "client_ok c'" by blast
  have "frees_live xs c'" using Cons.prems(2) step by simp
  then show ?case using Cons.IH [OF inv] step by simp
qed

lemma frees_live_take: "frees_live cs c \<Longrightarrow> frees_live (take n cs) c"
proof (induction cs arbitrary: c n)
  case Nil
  then show ?case by simp
next
  case (Cons x xs)
  show ?case
  proof (cases n)
    case 0
    then show ?thesis by simp
  next
    case (Suc k)
    then show ?thesis
      using Cons.prems Cons.IH by (auto split: sum.splits)
  qed
qed

lemma client_ok_init:
  "dbus_data_slot_allocator_init new_mutex a0 = (r, a) \<Longrightarrow> client_ok (a, [])"
  by (auto simp: dbus_data_slot_allocator_init_def client_ok_def allocator_ok_def
        used_def Let_def)

text \<open>
  C4. A client starts from an allocator that \<^verbatim>\<open>_dbus_data_slot_allocator_init\<close> has
  initialized and makes any sequence of calls in which every \<open>Free\<close> is of an identifier
  it holds. Then after any number \<open>n\<close> of these calls no call has stopped the program,
  the identifiers the client holds are pairwise distinct, and whatever the lock and
  the memory do, the next \<^verbatim>\<open>_dbus_data_slot_allocator_alloc\<close> returns a value that is
  not among them.
\<close>

theorem live_identifiers_distinct:
  assumes init: "dbus_data_slot_allocator_init new_mutex a0 = (True, a)"
    and frees: "frees_live cs (a, [])"
  shows "\<exists>a' ids. run (take n cs) (a, []) = Inr (a', ids) \<and> distinct ids
           \<and> (\<forall>lock_ok mem. \<exists>slot a''.
                 dbus_data_slot_allocator_alloc lock_ok mem a' = Inr (slot, a'')
                 \<and> slot \<notin> set ids)"
proof -
  have "client_ok (a, [])" using init by (rule client_ok_init)
  moreover have "frees_live (take n cs) (a, [])" using frees by (rule frees_live_take)
  ultimately obtain c' where r: "run (take n cs) (a, []) = Inr c'" and inv: "client_ok c'"
    using run_client_ok by blast
  obtain a' ids where c': "c' = (a', ids)" by (cases c')
  have "distinct ids" using inv c' by (simp add: client_ok_def)
  moreover have "\<forall>lock_ok mem. \<exists>slot a''.
                 dbus_data_slot_allocator_alloc lock_ok mem a' = Inr (slot, a'')
                 \<and> slot \<notin> set ids"
    using client_ok_alloc inv c' by blast
  ultimately show ?thesis using r c' by blast
qed


theorem live_identifiers_distinct_witness:
  "dbus_data_slot_allocator_init (Some 1)
       \<lparr>allocated_slots = Block [5], n_allocated_slots = 9, n_used_slots = 3, lock = None\<rparr>
     = (True, \<lparr>allocated_slots = Null, n_allocated_slots = 0, n_used_slots = 0,
               lock = Some 1\<rparr>)
   \<and> frees_live [Alloc True (Fresh (\<lambda>i. 7)), Alloc True (Fresh (\<lambda>i. 7)), Free 0,
                  Alloc True No_Memory]
        (\<lparr>allocated_slots = Null, n_allocated_slots = 0, n_used_slots = 0,
          lock = Some 1\<rparr>, [])
   \<and> run [Alloc True (Fresh (\<lambda>i. 7)), Alloc True (Fresh (\<lambda>i. 7)), Free 0,
           Alloc True No_Memory]
        (\<lparr>allocated_slots = Null, n_allocated_slots = 0, n_used_slots = 0,
          lock = Some 1\<rparr>, [])
      = Inr (\<lparr>allocated_slots = Block [0, 1], n_allocated_slots = 2, n_used_slots = 2,
              lock = Some 1\<rparr>, [1, 0])
   \<and> (\<exists>a' ids.
         run (take 4 [Alloc True (Fresh (\<lambda>i. 7)), Alloc True (Fresh (\<lambda>i. 7)), Free 0,
                      Alloc True No_Memory])
           (\<lparr>allocated_slots = Null, n_allocated_slots = 0, n_used_slots = 0,
             lock = Some 1\<rparr>, [])
         = Inr (a', ids) \<and> distinct ids
         \<and> (\<forall>lock_ok mem. \<exists>slot a''.
               dbus_data_slot_allocator_alloc lock_ok mem a' = Inr (slot, a'')
               \<and> slot \<notin> set ids))"
  using live_identifiers_distinct
          [of "Some 1"
              "\<lparr>allocated_slots = Block [5], n_allocated_slots = 9, n_used_slots = 3,
                lock = None\<rparr>"
              "\<lparr>allocated_slots = Null, n_allocated_slots = 0, n_used_slots = 0,
                lock = Some 1\<rparr>"
              "[Alloc True (Fresh (\<lambda>i. 7)), Alloc True (Fresh (\<lambda>i. 7)), Free 0,
                Alloc True No_Memory]" 4]
  by (simp add: dbus_data_slot_allocator_init_def dbus_data_slot_allocator_alloc_def
        dbus_data_slot_allocator_free_def dbus_realloc_def dbus_assert_def
        alloc_scan.simps upt_conv_Cons Let_def)

subsection \<open>The slot list\<close>

lemma list_set_fill_zero:
  assumes "slots l = Block t" and "n_slots l = int (length t)"
    and "0 \<le> i" and "i \<le> n_slots l"
  shows "list_set_fill l i =
           Inr (l\<lparr>slots := Block (take (nat i) t
                     @ replicate (length t - nat i) \<lparr>data = None, free_data_func = None\<rparr>)\<rparr>)"
  using assms
proof (induction l i arbitrary: t rule: list_set_fill.induct)
  case (1 l i)
  let ?e = "\<lparr>data = None, free_data_func = None\<rparr>"
  show ?case
  proof (cases "i < n_slots l")
    case False
    then have "nat i = length t" using "1.prems" by linarith
    then have "l\<lparr>slots := Block (take (nat i) t @ replicate (length t - nat i) ?e)\<rparr> = l"
      using "1.prems"(1) by simp
    then show ?thesis using False by (subst list_set_fill.simps) simp
  next
    case True
    then have k: "nat i < length t" using "1.prems" by linarith
    have wr_ok: "wr (slots l) i ?e = Some (Block (t[nat i := ?e]))"
      using "1.prems" True by (simp add: wr_cells)
    have "list_set_fill (l\<lparr>slots := Block (t[nat i := ?e])\<rparr>) (i + 1) =
            Inr (l\<lparr>slots := Block (t[nat i := ?e])\<rparr>
                  \<lparr>slots := Block (take (nat (i + 1)) (t[nat i := ?e])
                      @ replicate (length (t[nat i := ?e]) - nat (i + 1)) ?e)\<rparr>)"
      using "1.prems" True wr_ok by (intro "1.IH") auto
    moreover have "nat (i + 1) = Suc (nat i)" using "1.prems" by linarith
    moreover have "take (Suc (nat i)) (t[nat i := ?e]) @ replicate (length t - Suc (nat i)) ?e
                     = take (nat i) t @ replicate (length t - nat i) ?e"
    proof -
      have "take (Suc (nat i)) (t[nat i := ?e]) = take (nat i) t @ [?e]"
        using k by (simp add: take_Suc_conv_app_nth)
      moreover have "replicate (length t - nat i) ?e = ?e # replicate (length t - Suc (nat i)) ?e"
        using k by (simp add: Suc_diff_Suc flip: replicate_Suc)
      ultimately show ?thesis by simp
    qed
    ultimately show ?thesis
      using True wr_ok by (subst list_set_fill.simps) simp
  qed
qed

lemma list_ok_nonneg: "list_ok l \<Longrightarrow> 0 \<le> n_slots l"
  by (simp add: list_ok_def)

lemma list_set_grow_fresh:
  assumes ok: "list_ok l" and beyond: "n_slots l \<le> slot"
  shows "list_set_grow (Fresh junk) l slot =
           Inr (Some (l\<lparr>slots := Block (cells (slots l)
                            @ replicate (nat (slot + 1 - n_slots l))
                                \<lparr>data = None, free_data_func = None\<rparr>),
                        n_slots := slot + 1\<rparr>))"
proof -
  let ?t = "cells (slots l)"
  let ?e = "\<lparr>data = None, free_data_func = None\<rparr>"
  let ?tmp = "?t @ map junk [length ?t..<nat (slot + 1)]"
  have len: "n_slots l = int (length ?t)" using ok by (simp add: list_ok_def)
  have re: "dbus_realloc (Fresh junk) (slots l) (slot + 1) = Block ?tmp"
    using len beyond by (intro dbus_realloc_grow) auto
  have tmp_len: "length ?tmp = nat (slot + 1)" using len beyond by auto
  have "list_set_fill (l\<lparr>slots := Block ?tmp, n_slots := slot + 1\<rparr>) (n_slots l) =
          Inr (l\<lparr>slots := Block ?tmp, n_slots := slot + 1\<rparr>
                \<lparr>slots := Block (take (nat (n_slots l)) ?tmp
                    @ replicate (length ?tmp - nat (n_slots l)) ?e)\<rparr>)"
    using len beyond tmp_len by (intro list_set_fill_zero) auto
  moreover have "take (nat (n_slots l)) ?tmp = ?t" using len by simp
  moreover have "length ?tmp - nat (n_slots l) = nat (slot + 1 - n_slots l)"
    using len beyond tmp_len by linarith
  ultimately have "list_set_fill (l\<lparr>slots := Block ?tmp, n_slots := slot + 1\<rparr>) (n_slots l) =
          Inr (l\<lparr>slots := Block (?t @ replicate (nat (slot + 1 - n_slots l)) ?e),
                 n_slots := slot + 1\<rparr>)"
    by simp
  then show ?thesis by (simp add: list_set_grow_def re Let_def)
qed

lemma list_set_grow_no_memory: "list_set_grow No_Memory l slot = Inr None"
  by (simp add: list_set_grow_def dbus_realloc_fail)

text \<open>The three ways through \<^verbatim>\<open>_dbus_data_slot_list_set\<close>.\<close>

lemma list_set_within:
  assumes ok: "list_ok l" and live: "slot_allocated a slot" and within: "slot < n_slots l"
  shows "dbus_data_slot_list_set mem a l slot d f tr =
           Inr (True,
                l\<lparr>slots := Block ((cells (slots l))
                                     [nat slot := \<lparr>data = d, free_data_func = f\<rparr>])\<rparr>,
                Some (free_data_func (cells (slots l) ! nat slot),
                      data (cells (slots l) ! nat slot)),
                tr)"
proof -
  let ?t = "cells (slots l)"
  have len: "n_slots l = int (length ?t)" using ok by (simp add: list_ok_def)
  have nonneg: "0 \<le> slot" and alloc: "slot < n_allocated_slots a"
    using live by (simp_all add: slot_allocated_iff)
  have tag: "rd (allocated_slots a) slot = Some slot"
    using live by (simp add: slot_allocated_def)
  have rd_ok: "rd (slots l) slot = Some (?t ! nat slot)"
    using nonneg within len by (simp add: rd_cells)
  have wr_ok: "wr (slots l) slot \<lparr>data = d, free_data_func = f\<rparr> =
                 Some (Block (?t[nat slot := \<lparr>data = d, free_data_func = f\<rparr>]))"
    using nonneg within len by (simp add: wr_cells)
  show ?thesis
    using within alloc
    by (simp add: dbus_data_slot_list_set_def dbus_assert_def tag rd_ok wr_ok)
qed

lemma list_set_no_memory:
  assumes live: "slot_allocated a slot" and beyond: "n_slots l \<le> slot"
  shows "dbus_data_slot_list_set No_Memory a l slot d f tr = Inr (False, l, None, tr)"
proof -
  have "slot < n_allocated_slots a" and "rd (allocated_slots a) slot = Some slot"
    using live by (simp_all add: slot_allocated_def)
  then show ?thesis
    using beyond
    by (simp add: dbus_data_slot_list_set_def dbus_assert_def list_set_grow_no_memory)
qed

lemma list_set_beyond:
  assumes ok: "list_ok l" and live: "slot_allocated a slot" and beyond: "n_slots l \<le> slot"
  shows "dbus_data_slot_list_set (Fresh junk) a l slot d f tr =
           Inr (True,
                l\<lparr>slots := Block (cells (slots l)
                            @ replicate (nat (slot - n_slots l))
                                \<lparr>data = None, free_data_func = None\<rparr>
                            @ [\<lparr>data = d, free_data_func = f\<rparr>]),
                  n_slots := slot + 1\<rparr>,
                Some (None, None), tr)"
proof -
  let ?t = "cells (slots l)"
  let ?e = "\<lparr>data = None, free_data_func = None\<rparr>"
  let ?k = "nat (slot - n_slots l)"
  let ?g = "?t @ replicate (nat (slot + 1 - n_slots l)) ?e"
  have len: "n_slots l = int (length ?t)" using ok by (simp add: list_ok_def)
  have alloc: "slot < n_allocated_slots a" and tag: "rd (allocated_slots a) slot = Some slot"
    using live by (simp_all add: slot_allocated_def)
  have k: "nat (slot + 1 - n_slots l) = Suc ?k" using beyond by linarith
  have at: "nat slot = length ?t + ?k" using len beyond by linarith
  have g: "?g = (?t @ replicate ?k ?e) @ [?e]"
    by (simp add: k replicate_append_same)
  have g_len: "int (length ?g) = slot + 1" using len beyond by simp
  have rd_ok: "rd (Block ?g) slot = Some ?e"
    using len beyond g_len by (simp add: nth_append at)
  have "?g[nat slot := \<lparr>data = d, free_data_func = f\<rparr>] =
           ?t @ replicate ?k ?e @ [\<lparr>data = d, free_data_func = f\<rparr>]"
    unfolding g at by (simp add: list_update_append)
  then have wr_ok: "wr (Block ?g) slot \<lparr>data = d, free_data_func = f\<rparr> =
           Some (Block (?t @ replicate ?k ?e @ [\<lparr>data = d, free_data_func = f\<rparr>]))"
    using len beyond g_len by simp
  show ?thesis
    using beyond alloc
    by (simp add: dbus_data_slot_list_set_def dbus_assert_def tag
          list_set_grow_fresh [OF ok beyond] rd_ok wr_ok del: rd.simps wr.simps)
qed


lemma expected_calls_drop:
  "k < length t \<Longrightarrow>
   expected_calls (drop k t) =
     (case free_data_func (t ! k) of
        None \<Rightarrow> expected_calls (drop (Suc k) t)
      | Some f \<Rightarrow> (f, data (t ! k)) # expected_calls (drop (Suc k) t))"
  by (simp flip: Cons_nth_drop_Suc)

text \<open>The expected calls, said without recursion.\<close>

lemma expected_calls_filter:
  "expected_calls t =
     map (\<lambda>s. (the (free_data_func s), data s)) (filter (\<lambda>s. free_data_func s \<noteq> None) t)"
  by (induction t) (auto split: option.split)

lemma list_free_loop_calls:
  assumes "slots l = Block t" and "n_slots l = int (length t)"
    and "0 \<le> i" and "i \<le> n_slots l"
  shows "list_free_loop l i tr =
           Inr (l\<lparr>slots := Block (take (nat i) t
                     @ replicate (length t - nat i) \<lparr>data = None, free_data_func = None\<rparr>)\<rparr>,
                tr @ expected_calls (drop (nat i) t))"
  using assms
proof (induction l i tr arbitrary: t rule: list_free_loop.induct)
  case (1 l i tr)
  let ?e = "\<lparr>data = None, free_data_func = None\<rparr>"
  show ?case
  proof (cases "i < n_slots l")
    case False
    then have "nat i = length t" using "1.prems" by linarith
    then have "l\<lparr>slots := Block (take (nat i) t @ replicate (length t - nat i) ?e)\<rparr> = l"
      and "expected_calls (drop (nat i) t) = []"
      using "1.prems"(1) by simp_all
    then show ?thesis using False by (subst list_free_loop.simps) simp
  next
    case True
    let ?tr = "case free_data_func (t ! nat i) of
                 None \<Rightarrow> tr
               | Some f \<Rightarrow> tr @ [(f, data (t ! nat i))]"
    have k: "nat i < length t" using "1.prems" True by linarith
    have rd_ok: "rd (slots l) i = Some (t ! nat i)"
      using "1.prems" True by (simp add: rd_cells)
    have wr_ok: "wr (slots l) i ?e = Some (Block (t[nat i := ?e]))"
      using "1.prems" True by (simp add: wr_cells)
    have "list_free_loop (l\<lparr>slots := Block (t[nat i := ?e])\<rparr>) (i + 1) ?tr =
            Inr (l\<lparr>slots := Block (t[nat i := ?e])\<rparr>
                  \<lparr>slots := Block (take (nat (i + 1)) (t[nat i := ?e])
                      @ replicate (length (t[nat i := ?e]) - nat (i + 1)) ?e)\<rparr>,
                 ?tr @ expected_calls (drop (nat (i + 1)) (t[nat i := ?e])))"
      using "1.prems" True rd_ok wr_ok by (intro "1.IH") auto
    moreover have "nat (i + 1) = Suc (nat i)" using "1.prems" by linarith
    moreover have "take (Suc (nat i)) (t[nat i := ?e]) @ replicate (length t - Suc (nat i)) ?e
                     = take (nat i) t @ replicate (length t - nat i) ?e"
    proof -
      have "take (Suc (nat i)) (t[nat i := ?e]) = take (nat i) t @ [?e]"
        using k by (simp add: take_Suc_conv_app_nth)
      moreover have "replicate (length t - nat i) ?e = ?e # replicate (length t - Suc (nat i)) ?e"
        using k by (simp add: Suc_diff_Suc flip: replicate_Suc)
      ultimately show ?thesis by simp
    qed
    moreover have "?tr @ expected_calls (drop (Suc (nat i)) t) = tr @ expected_calls (drop (nat i) t)"
      using k by (simp add: expected_calls_drop split: option.split)
    ultimately show ?thesis
      using True rd_ok wr_ok by (subst list_free_loop.simps) (simp add: Let_def)
  qed
qed

text \<open>
  C5. On a list state and a currently allocated identifier, when
  \<^verbatim>\<open>_dbus_data_slot_list_set\<close> returns \<^verbatim>\<open>TRUE\<close>, it has written to \<^verbatim>\<open>*old_free_func\<close> and
  \<^verbatim>\<open>*old_data\<close> the pair the cell of the identifier held before the call, \<^verbatim>\<open>NULL\<close> and
  \<^verbatim>\<open>NULL\<close> if the list had no such cell; the cell holds the new pair afterwards; and the
  trace of free-function calls is as it was: the function called none.
\<close>

theorem list_set_hands_back_old_pair:
  assumes ok: "list_ok l" and live: "slot_allocated a slot"
    and succ: "dbus_data_slot_list_set mem a l slot d f tr = Inr (True, l', out, tr')"
  shows "out = Some (if slot < n_slots l
                     then (free_data_func (cells (slots l) ! nat slot),
                           data (cells (slots l) ! nat slot))
                     else (None, None))
       \<and> rd (slots l') slot = Some \<lparr>data = d, free_data_func = f\<rparr>
       \<and> tr' = tr"
proof (cases "slot < n_slots l")
  case True
  have "0 \<le> slot" using live by (simp add: slot_allocated_iff)
  moreover have "n_slots l = int (length (cells (slots l)))" using ok by (simp add: list_ok_def)
  ultimately show ?thesis
    using succ True list_set_within [OF ok live True] by auto
next
  case False
  then have beyond: "n_slots l \<le> slot" by simp
  have nonneg: "0 \<le> n_slots l" using ok by (rule list_ok_nonneg)
  have len: "n_slots l = int (length (cells (slots l)))" using ok by (simp add: list_ok_def)
  show ?thesis
  proof (cases mem)
    case No_Memory
    then show ?thesis using succ list_set_no_memory [OF live beyond] by simp
  next
    case (Fresh junk)
    have "nat slot = length (cells (slots l)) + nat (slot - n_slots l)"
      using len beyond by linarith
    then show ?thesis
      using succ False Fresh list_set_beyond [OF ok live beyond] len beyond
      by (auto simp: nth_append)
  qed
qed


theorem list_set_hands_back_old_pair_witness:
  "list_ok example_list
   \<and> slot_allocated example_allocator 0
   \<and> dbus_data_slot_list_set No_Memory example_allocator example_list 0 (Some 11) (Some 6)
        [(9, None)]
      = Inr (True,
             \<lparr>slots = Block [\<lparr>data = Some 11, free_data_func = Some 6\<rparr>,
                             \<lparr>data = None, free_data_func = None\<rparr>],
              n_slots = 2\<rparr>,
             Some (Some 5, Some 10), [(9, None)])
   \<and> rd (Block [\<lparr>data = Some 11, free_data_func = Some 6\<rparr>,
                  \<lparr>data = None, free_data_func = None\<rparr>]) 0
      = Some \<lparr>data = Some 11, free_data_func = Some 6\<rparr>"
  using list_set_hands_back_old_pair
          [where l = example_list and a = example_allocator and slot = 0 and mem = No_Memory
             and d = "Some 11" and f = "Some 6" and tr = "[(9, None)]"
             and l' = "\<lparr>slots = Block [\<lparr>data = Some 11, free_data_func = Some 6\<rparr>,
                                       \<lparr>data = None, free_data_func = None\<rparr>],
                        n_slots = 2\<rparr>"
             and out = "Some (Some 5, Some 10)" and tr' = "[(9, None)]"]
  by (simp add: example_allocator_def example_list_def list_ok_def slot_allocated_def
        dbus_data_slot_list_set_def dbus_assert_def)

text \<open>
  C6. On a list state and a currently allocated identifier with \<open>slot \<ge> n_slots\<close>: if
  \<^verbatim>\<open>dbus_realloc\<close> fails, \<^verbatim>\<open>_dbus_data_slot_list_set\<close> returns \<^verbatim>\<open>FALSE\<close>, leaves the list as
  it was and writes nothing through its out parameters. If it succeeds, whatever the
  new memory held, the block of lines 184--203 leaves a list of \<open>slot + 1\<close> cells: the
  old ones unchanged, then cells with \<^verbatim>\<open>NULL\<close> data and \<^verbatim>\<open>NULL\<close> free function up to and
  including \<open>slot\<close>. The function then stores the new pair in the cell \<open>slot\<close>, returns
  \<^verbatim>\<open>TRUE\<close> and hands back \<^verbatim>\<open>NULL\<close> and \<^verbatim>\<open>NULL\<close> as the old pair, so the list it leaves has
  \<open>slot + 1\<close> cells.
\<close>

theorem list_set_grows_to_slot:
  assumes ok: "list_ok l" and live: "slot_allocated a slot" and beyond: "n_slots l \<le> slot"
  shows "dbus_data_slot_list_set No_Memory a l slot d f tr = Inr (False, l, None, tr)
       \<and> list_set_grow (Fresh junk) l slot =
           Inr (Some (l\<lparr>slots := Block (cells (slots l)
                            @ replicate (nat (slot + 1 - n_slots l))
                                \<lparr>data = None, free_data_func = None\<rparr>),
                        n_slots := slot + 1\<rparr>))
       \<and> dbus_data_slot_list_set (Fresh junk) a l slot d f tr =
           Inr (True,
                l\<lparr>slots := Block (cells (slots l)
                            @ replicate (nat (slot - n_slots l))
                                \<lparr>data = None, free_data_func = None\<rparr>
                            @ [\<lparr>data = d, free_data_func = f\<rparr>]),
                  n_slots := slot + 1\<rparr>,
                Some (None, None), tr)
       \<and> int (length (cells (slots l)
                  @ replicate (nat (slot - n_slots l)) \<lparr>data = None, free_data_func = None\<rparr>
                  @ [\<lparr>data = d, free_data_func = f\<rparr>])) = slot + 1"
proof -
  have "n_slots l = int (length (cells (slots l)))" using ok by (simp add: list_ok_def)
  then have "int (length (cells (slots l)
                  @ replicate (nat (slot - n_slots l)) \<lparr>data = None, free_data_func = None\<rparr>
                  @ [\<lparr>data = d, free_data_func = f\<rparr>])) = slot + 1"
    using beyond by simp
  then show ?thesis
    using list_set_no_memory [OF live beyond] list_set_beyond [OF ok live beyond]
      list_set_grow_fresh [OF ok beyond]
    by simp
qed

theorem list_set_grows_to_slot_witness:
  "list_ok example_list
   \<and> slot_allocated example_allocator 3
   \<and> dbus_data_slot_list_set No_Memory example_allocator example_list 3 (Some 11) (Some 6) []
      = Inr (False, example_list, None, [])
   \<and> dbus_data_slot_list_set (Fresh (\<lambda>i. \<lparr>data = Some 99, free_data_func = Some 98\<rparr>))
        example_allocator example_list 3 (Some 11) (Some 6) []
      = Inr (True,
             \<lparr>slots = Block [\<lparr>data = Some 10, free_data_func = Some 5\<rparr>,
                             \<lparr>data = None, free_data_func = None\<rparr>,
                             \<lparr>data = None, free_data_func = None\<rparr>,
                             \<lparr>data = Some 11, free_data_func = Some 6\<rparr>],
              n_slots = 4\<rparr>,
             Some (None, None), [])"
  using list_set_grows_to_slot
          [where l = example_list and a = example_allocator and slot = 3
             and d = "Some 11" and f = "Some 6"
             and tr = "[]" and junk = "\<lambda>i. \<lparr>data = Some 99, free_data_func = Some 98\<rparr>"]
  by (simp add: example_allocator_def example_list_def list_ok_def slot_allocated_def)

text \<open>
  C7. On a list state and a currently allocated identifier,
  \<^verbatim>\<open>_dbus_data_slot_list_get\<close> returns \<^verbatim>\<open>NULL\<close> when \<open>slot \<ge> n_slots\<close> and the data of the
  cell \<open>slot\<close> otherwise; the list after the call is the list before it.
\<close>

theorem list_get_reads_only:
  assumes ok: "list_ok l" and live: "slot_allocated a slot"
  shows "dbus_data_slot_list_get a l slot =
           Inr (if n_slots l \<le> slot then None else data (cells (slots l) ! nat slot), l)"
proof -
  have len: "n_slots l = int (length (cells (slots l)))" using ok by (simp add: list_ok_def)
  have nonneg: "0 \<le> slot" and alloc: "slot < n_allocated_slots a"
    using live by (simp_all add: slot_allocated_iff)
  have tag: "rd (allocated_slots a) slot = Some slot"
    using live by (simp add: slot_allocated_def)
  have "rd (slots l) slot = Some (cells (slots l) ! nat slot)" if "slot < n_slots l"
    using that nonneg len by (simp add: rd_cells)
  then show ?thesis
    using alloc by (simp add: dbus_data_slot_list_get_def dbus_assert_def tag)
qed

theorem list_get_reads_only_witness:
  "list_ok example_list
   \<and> slot_allocated example_allocator 0 \<and> slot_allocated example_allocator 3
   \<and> dbus_data_slot_list_get example_allocator example_list 0 = Inr (Some 10, example_list)
   \<and> dbus_data_slot_list_get example_allocator example_list 3 = Inr (None, example_list)"
  using list_get_reads_only [where l = example_list and a = example_allocator and slot = 0]
    list_get_reads_only [where l = example_list and a = example_allocator and slot = 3]
  by (simp add: example_allocator_def example_list_def list_ok_def slot_allocated_def)

text \<open>
  C8. On a list state, \<^verbatim>\<open>_dbus_data_slot_list_free\<close> adds to the trace of free-function
  calls exactly \<open>expected_calls\<close> of the cells: for each cell from index 0 to
  \<open>n_slots - 1\<close> that has a free function, in this order, one call of that function on
  the data of that cell. Afterwards the array pointer is \<^verbatim>\<open>NULL\<close> and \<open>n_slots\<close> is 0.
\<close>

theorem list_free_calls_each_free_function:
  assumes ok: "list_ok l"
  shows "dbus_data_slot_list_free l tr =
           Inr (l\<lparr>slots := Null, n_slots := 0\<rparr>, tr @ expected_calls (cells (slots l)))"
proof (cases "slots l")
  case Null
  then have "n_slots l = 0" using ok by (simp add: list_ok_def)
  then have "list_free_loop l 0 tr = Inr (l, tr)" by (subst list_free_loop.simps) simp
  then show ?thesis using Null by (simp add: dbus_data_slot_list_free_def)
next
  case (Block t)
  then have "n_slots l = int (length t)" using ok by (simp add: list_ok_def)
  then have "list_free_loop l 0 tr =
           Inr (l\<lparr>slots := Block (take (nat 0) t
                     @ replicate (length t - nat 0) \<lparr>data = None, free_data_func = None\<rparr>)\<rparr>,
                tr @ expected_calls (drop (nat 0) t))"
    using Block by (intro list_free_loop_calls) auto
  then show ?thesis using Block by (simp add: dbus_data_slot_list_free_def)
qed

theorem list_free_calls_each_free_function_witness:
  "list_ok \<lparr>slots = Block [\<lparr>data = Some 10, free_data_func = Some 5\<rparr>,
                            \<lparr>data = Some 20, free_data_func = None\<rparr>,
                            \<lparr>data = None, free_data_func = Some 7\<rparr>],
             n_slots = 3\<rparr>
   \<and> dbus_data_slot_list_free
        \<lparr>slots = Block [\<lparr>data = Some 10, free_data_func = Some 5\<rparr>,
                        \<lparr>data = Some 20, free_data_func = None\<rparr>,
                        \<lparr>data = None, free_data_func = Some 7\<rparr>],
         n_slots = 3\<rparr> [(1, None)]
      = Inr (\<lparr>slots = Null, n_slots = 0\<rparr>, [(1, None), (5, Some 10), (7, None)])"
  using list_free_calls_each_free_function
          [where l = "\<lparr>slots = Block [\<lparr>data = Some 10, free_data_func = Some 5\<rparr>,
                                     \<lparr>data = Some 20, free_data_func = None\<rparr>,
                                     \<lparr>data = None, free_data_func = Some 7\<rparr>],
                      n_slots = 3\<rparr>" and tr = "[(1, None)]"]
  by (simp add: list_ok_def)

text \<open>
  C9. On a list state and a currently allocated identifier with \<open>slot < n_slots\<close>,
  \<^verbatim>\<open>_dbus_data_slot_list_set\<close> returns \<^verbatim>\<open>TRUE\<close> whatever \<^verbatim>\<open>dbus_realloc\<close> would answer,
  and the list has as many cells afterwards as before, with \<open>n_slots\<close> unchanged.
\<close>

theorem list_set_within_length_succeeds:
  assumes ok: "list_ok l" and live: "slot_allocated a slot" and within: "slot < n_slots l"
  shows "\<exists>l' out. dbus_data_slot_list_set mem a l slot d f tr = Inr (True, l', out, tr)
           \<and> n_slots l' = n_slots l
           \<and> length (cells (slots l')) = length (cells (slots l))"
  using list_set_within [OF ok live within] by simp

theorem list_set_within_length_succeeds_witness:
  "list_ok example_list
   \<and> slot_allocated example_allocator 1
   \<and> (\<exists>l' out. dbus_data_slot_list_set No_Memory example_allocator example_list 1
                  (Some 11) (Some 6) []
                  = Inr (True, l', out, [])
         \<and> n_slots l' = 2 \<and> length (cells (slots l')) = Suc (Suc 0))"
  using list_set_within_length_succeeds
          [where l = example_list and a = example_allocator and slot = 1 and mem = No_Memory
             and d = "Some 11" and f = "Some 6" and tr = "[]"]
  by (simp add: example_allocator_def example_list_def list_ok_def slot_allocated_def)

text \<open>
  C10. On a list state and a currently allocated identifier, when
  \<^verbatim>\<open>_dbus_data_slot_list_set\<close> returns \<^verbatim>\<open>TRUE\<close>, every cell the list had before the call,
  other than the cell \<open>slot\<close>, holds afterwards the pair it held before.
\<close>

theorem list_set_other_slots_unchanged:
  assumes ok: "list_ok l" and live: "slot_allocated a slot"
    and succ: "dbus_data_slot_list_set mem a l slot d f tr = Inr (True, l', out, tr')"
  shows "\<forall>i. 0 \<le> i \<and> i < n_slots l \<and> i \<noteq> slot \<longrightarrow>
           rd (slots l') i = Some (cells (slots l) ! nat i)"
proof (cases "slot < n_slots l")
  case True
  have "0 \<le> slot" using live by (simp add: slot_allocated_iff)
  moreover have "n_slots l = int (length (cells (slots l)))" using ok by (simp add: list_ok_def)
  ultimately show ?thesis
    using succ True list_set_within [OF ok live True] by auto
next
  case False
  then have beyond: "n_slots l \<le> slot" by simp
  have len: "n_slots l = int (length (cells (slots l)))" using ok by (simp add: list_ok_def)
  show ?thesis
  proof (cases mem)
    case No_Memory
    then show ?thesis using succ list_set_no_memory [OF live beyond] by simp
  next
    case (Fresh junk)
    then show ?thesis
      using succ list_set_beyond [OF ok live beyond] len beyond
      by (auto simp: nth_append)
  qed
qed

theorem list_set_other_slots_unchanged_witness:
  "list_ok example_list
   \<and> slot_allocated example_allocator 3
   \<and> dbus_data_slot_list_set (Fresh (\<lambda>i. \<lparr>data = Some 99, free_data_func = Some 98\<rparr>))
        example_allocator example_list 3 (Some 11) (Some 6) []
      = Inr (True,
             \<lparr>slots = Block [\<lparr>data = Some 10, free_data_func = Some 5\<rparr>,
                             \<lparr>data = None, free_data_func = None\<rparr>,
                             \<lparr>data = None, free_data_func = None\<rparr>,
                             \<lparr>data = Some 11, free_data_func = Some 6\<rparr>],
              n_slots = 4\<rparr>,
             Some (None, None), [])
   \<and> rd (Block [\<lparr>data = Some 10, free_data_func = Some 5\<rparr>,
                  \<lparr>data = None, free_data_func = None\<rparr>,
                  \<lparr>data = None, free_data_func = None\<rparr>,
                  \<lparr>data = Some 11, free_data_func = Some 6\<rparr>]) 0
      = Some \<lparr>data = Some 10, free_data_func = Some 5\<rparr>
   \<and> rd (Block [\<lparr>data = Some 10, free_data_func = Some 5\<rparr>,
                  \<lparr>data = None, free_data_func = None\<rparr>,
                  \<lparr>data = None, free_data_func = None\<rparr>,
                  \<lparr>data = Some 11, free_data_func = Some 6\<rparr>]) 1
      = Some \<lparr>data = None, free_data_func = None\<rparr>"
  using list_set_other_slots_unchanged
          [where l = example_list and a = example_allocator and slot = 3
             and mem = "Fresh (\<lambda>i. \<lparr>data = Some 99, free_data_func = Some 98\<rparr>)"
             and d = "Some 11" and f = "Some 6" and tr = "[]"
             and l' = "\<lparr>slots = Block [\<lparr>data = Some 10, free_data_func = Some 5\<rparr>,
                                       \<lparr>data = None, free_data_func = None\<rparr>,
                                       \<lparr>data = None, free_data_func = None\<rparr>,
                                       \<lparr>data = Some 11, free_data_func = Some 6\<rparr>],
                        n_slots = 4\<rparr>"
             and out = "Some (None, None)" and tr' = "[]"]
  by (simp add: example_allocator_def example_list_def list_ok_def slot_allocated_def
        dbus_data_slot_list_set_def dbus_assert_def
        list_set_grow_def dbus_realloc_def list_set_fill.simps upt_conv_Cons Let_def)

end
